theory Spec2Isabelle
  imports Main "HOL-Library.Word"
begin

unbundle bit_operations_syntax

section \<open>Bytes, errors and Python list access\<close>

text \<open>
  A Python \<open>bytes\<close> object is a sequence of integers in the range 0..255: a list of
  8-bit words. Python integers are unbounded: \<open>int\<close>.
\<close>

type_synonym byte = "8 word"
type_synonym bytes = "byte list"

text \<open>
  The source raises \<open>ValueError\<close> with a message, and \<open>NotImplementedError\<close> for Huffman
  strings. Each \<open>raise\<close> is mapped to the error kind of section 7 of the specification
  that its message describes. \<open>IndexError\<close> is the built-in exception of Python for a
  subscript out of range and for \<open>pop\<close> from an empty list; no \<open>raise\<close> statement of the
  source produces it.
\<close>

datatype error =
    InvalidArgument
  | NotSupported
  | CapacityExceedsLimit
  | EntryTooLarge
  | IndexOutOfRange
  | MalformedInteger
  | IndexError

text \<open>
  Subscripting \<open>xs[i]\<close>: an index from \<open>-len(xs)\<close> up to \<open>-1\<close> counts from the end,
  anything outside \<open>-len(xs) .. len(xs) - 1\<close> raises \<open>IndexError\<close>.
\<close>

definition py_getitem :: "'a list \<Rightarrow> int \<Rightarrow> error + 'a" where
  "py_getitem xs i =
     (if 0 \<le> i \<and> i < int (length xs) then Inr (xs ! nat i)
      else if - int (length xs) \<le> i \<and> i < 0 then Inr (xs ! nat (int (length xs) + i))
      else Inl IndexError)"

section \<open>Integer codec (\<open>encode_integer\<close>, \<open>decode_integer\<close>)\<close>

text \<open>
  The \<open>while value >= 0x80\<close> loop of \<open>encode_integer\<close>, together with the final
  \<open>buf.append(value)\<close>. Every appended integer lies in 0..255: \<open>(v & 0x7F) | 0x80\<close>
  is between 128 and 255 and the final \<open>v\<close> is below 128, so \<open>word_of_int\<close> never
  wraps here (lemmas \<open>cont_byte_uint\<close> and \<open>small_byte\<close> below).
\<close>

function encode_integer_loop :: "int \<Rightarrow> bytes" where
  "encode_integer_loop v =
     (if v \<ge> 0x80
      then word_of_int ((v AND 0x7F) OR 0x80) # encode_integer_loop (drop_bit 7 v)
      else [word_of_int v])"
  by pat_completeness auto
termination
  by (relation "measure nat") (auto simp: drop_bit_eq_div)

declare encode_integer_loop.simps [simp del]

definition encode_integer :: "int \<Rightarrow> int \<Rightarrow> error + bytes" where
  "encode_integer v prefix_bits =
     (if v < 0 then Inl InvalidArgument
      else if \<not> (1 \<le> prefix_bits \<and> prefix_bits \<le> 8) then Inl InvalidArgument
      else
        let max_prefix = push_bit (nat prefix_bits) 1 - 1 in
        if v < max_prefix then Inr [word_of_int v]
        else Inr (word_of_int max_prefix # encode_integer_loop (v - max_prefix)))"

text \<open>
  The \<open>while True\<close> loop of \<open>decode_integer\<close>. \<open>shift\<close> starts at 0 and grows by 7, so
  it is a natural number; \<open>consumed\<close> is added to the (possibly negative) offset.
\<close>

function decode_integer_loop ::
  "bytes \<Rightarrow> int \<Rightarrow> int \<Rightarrow> int \<Rightarrow> nat \<Rightarrow> error + (int \<times> int)" where
  "decode_integer_loop data offset consumed v shift =
     (if offset + consumed \<ge> int (length data) then Inl MalformedInteger
      else
        case py_getitem data (offset + consumed) of
          Inl e \<Rightarrow> Inl e
        | Inr b \<Rightarrow>
            let consumed' = consumed + 1;
                v' = v + push_bit shift (uint b AND 0x7F);
                shift' = shift + 7
            in if uint b AND 0x80 = 0 then Inr (v', consumed')
               else decode_integer_loop data offset consumed' v' shift')"
  by pat_completeness auto
termination
  by (relation "measure (\<lambda>(data, offset, consumed, v, shift).
        nat (int (length data) - (offset + consumed)))") auto

declare decode_integer_loop.simps [simp del]

definition decode_integer :: "bytes \<Rightarrow> int \<Rightarrow> int \<Rightarrow> error + (int \<times> int)" where
  "decode_integer data offset prefix_bits =
     (if \<not> (1 \<le> prefix_bits \<and> prefix_bits \<le> 8) then Inl InvalidArgument
      else if offset \<ge> int (length data) then Inl MalformedInteger
      else
        let max_prefix = push_bit (nat prefix_bits) 1 - 1 in
        case py_getitem data offset of
          Inl e \<Rightarrow> Inl e
        | Inr b0 \<Rightarrow>
            let v = uint b0 AND max_prefix in
            if v < max_prefix then Inr (v, 1)
            else decode_integer_loop data offset 1 v 0)"

text \<open>
  Sequencing of calls that may raise: the first error ends the computation.
\<close>

fun result_bind :: "error + 'a \<Rightarrow> ('a \<Rightarrow> error + 'b) \<Rightarrow> error + 'b" where
  "result_bind (Inl e) f = Inl e"
| "result_bind (Inr x) f = f x"

section \<open>String codec (\<open>encode_string\<close>)\<close>

definition encode_string :: "bytes \<Rightarrow> bool \<Rightarrow> error + bytes" where
  "encode_string s use_huffman =
     (if use_huffman then Inl NotSupported
      else result_bind (encode_integer (int (length s)) 7)
             (\<lambda>length_bytes. Inr (length_bytes @ s)))"

section \<open>Encoder stream instructions\<close>

text \<open>
  The statement \<open>buf[0] |= m\<close> on a \<open>bytearray\<close>; it raises \<open>IndexError\<close> on an
  empty buffer. Both operands are below 256, so is the result.
\<close>

definition or_first_byte :: "bytes \<Rightarrow> byte \<Rightarrow> error + bytes" where
  "or_first_byte buf m =
     (case buf of [] \<Rightarrow> Inl IndexError | b0 # rest \<Rightarrow> Inr ((b0 OR m) # rest))"

definition set_dynamic_table_capacity :: "int \<Rightarrow> error + bytes" where
  "set_dynamic_table_capacity cap =
     (if cap < 0 then Inl InvalidArgument
      else result_bind (encode_integer cap 5) (\<lambda>int_bytes. or_first_byte int_bytes 0x20))"

definition insert_with_name_ref :: "int \<Rightarrow> bytes \<Rightarrow> bool \<Rightarrow> error + bytes" where
  "insert_with_name_ref index v is_static =
     (if index < 0 then Inl InvalidArgument
      else
        result_bind (encode_integer index 6) (\<lambda>int_bytes.
        result_bind (or_first_byte int_bytes 0x80) (\<lambda>buf1.
        result_bind (if is_static then or_first_byte buf1 0x40 else Inr buf1) (\<lambda>buf2.
        result_bind (encode_string v False) (\<lambda>value_str.
        Inr (buf2 @ value_str))))))"

definition insert_with_literal_name :: "bytes \<Rightarrow> bytes \<Rightarrow> error + bytes" where
  "insert_with_literal_name nm v =
     result_bind (encode_string nm False) (\<lambda>name_str.
     result_bind (or_first_byte name_str 0x40) (\<lambda>buf.
     result_bind (encode_string v False) (\<lambda>value_str.
     Inr (buf @ value_str))))"

definition duplicate :: "int \<Rightarrow> error + bytes" where
  "duplicate index =
     (if index < 0 then Inl InvalidArgument else encode_integer index 5)"

section \<open>Static table\<close>

text \<open>A bytes literal \<open>b"..."\<close> of ASCII characters.\<close>

definition ascii_bytes :: "string \<Rightarrow> bytes" where
  "ascii_bytes s = map of_char s"

definition STATIC_TABLE :: "(bytes \<times> bytes) list" where
  "STATIC_TABLE = [
    (ascii_bytes '':authority'', []),
    (ascii_bytes '':path'', ascii_bytes ''/''),
    (ascii_bytes ''age'', ascii_bytes ''0''),
    (ascii_bytes ''content-disposition'', []),
    (ascii_bytes ''content-length'', ascii_bytes ''0''),
    (ascii_bytes ''cookie'', []),
    (ascii_bytes ''date'', []),
    (ascii_bytes ''etag'', []),
    (ascii_bytes ''if-modified-since'', []),
    (ascii_bytes ''if-none-match'', []),
    (ascii_bytes ''last-modified'', []),
    (ascii_bytes ''link'', []),
    (ascii_bytes ''location'', []),
    (ascii_bytes ''referer'', []),
    (ascii_bytes ''set-cookie'', []),
    (ascii_bytes '':method'', ascii_bytes ''CONNECT''),
    (ascii_bytes '':method'', ascii_bytes ''DELETE''),
    (ascii_bytes '':method'', ascii_bytes ''GET''),
    (ascii_bytes '':method'', ascii_bytes ''HEAD''),
    (ascii_bytes '':method'', ascii_bytes ''OPTIONS''),
    (ascii_bytes '':method'', ascii_bytes ''POST''),
    (ascii_bytes '':method'', ascii_bytes ''PUT''),
    (ascii_bytes '':scheme'', ascii_bytes ''http''),
    (ascii_bytes '':scheme'', ascii_bytes ''https''),
    (ascii_bytes '':status'', ascii_bytes ''103''),
    (ascii_bytes '':status'', ascii_bytes ''200''),
    (ascii_bytes '':status'', ascii_bytes ''304''),
    (ascii_bytes '':status'', ascii_bytes ''404''),
    (ascii_bytes '':status'', ascii_bytes ''503''),
    (ascii_bytes ''accept'', ascii_bytes ''*/*''),
    (ascii_bytes ''accept'', ascii_bytes ''application/dns-message''),
    (ascii_bytes ''accept-encoding'', ascii_bytes ''gzip, deflate, br''),
    (ascii_bytes ''accept-ranges'', ascii_bytes ''bytes''),
    (ascii_bytes ''access-control-allow-headers'', ascii_bytes ''cache-control''),
    (ascii_bytes ''access-control-allow-headers'', ascii_bytes ''content-type''),
    (ascii_bytes ''access-control-allow-origin'', ascii_bytes ''*''),
    (ascii_bytes ''cache-control'', ascii_bytes ''max-age=0''),
    (ascii_bytes ''cache-control'', ascii_bytes ''max-age=2592000''),
    (ascii_bytes ''cache-control'', ascii_bytes ''max-age=604800''),
    (ascii_bytes ''cache-control'', ascii_bytes ''no-cache''),
    (ascii_bytes ''cache-control'', ascii_bytes ''no-store''),
    (ascii_bytes ''cache-control'', ascii_bytes ''public, max-age=31536000''),
    (ascii_bytes ''content-encoding'', ascii_bytes ''br''),
    (ascii_bytes ''content-encoding'', ascii_bytes ''gzip''),
    (ascii_bytes ''content-type'', ascii_bytes ''application/dns-message''),
    (ascii_bytes ''content-type'', ascii_bytes ''application/javascript''),
    (ascii_bytes ''content-type'', ascii_bytes ''application/json''),
    (ascii_bytes ''content-type'', ascii_bytes ''application/x-www-form-urlencoded''),
    (ascii_bytes ''content-type'', ascii_bytes ''image/gif''),
    (ascii_bytes ''content-type'', ascii_bytes ''image/jpeg''),
    (ascii_bytes ''content-type'', ascii_bytes ''image/png''),
    (ascii_bytes ''content-type'', ascii_bytes ''text/css''),
    (ascii_bytes ''content-type'', ascii_bytes ''text/html; charset=utf-8''),
    (ascii_bytes ''content-type'', ascii_bytes ''text/plain''),
    (ascii_bytes ''content-type'', ascii_bytes ''text/plain;charset=utf-8''),
    (ascii_bytes ''range'', ascii_bytes ''bytes=0-''),
    (ascii_bytes ''strict-transport-security'', ascii_bytes ''max-age=31536000''),
    (ascii_bytes ''strict-transport-security'', ascii_bytes ''max-age=31536000; includesubdomains''),
    (ascii_bytes ''strict-transport-security'', ascii_bytes ''max-age=31536000; includesubdomains; preload''),
    (ascii_bytes ''vary'', ascii_bytes ''accept-encoding''),
    (ascii_bytes ''vary'', ascii_bytes ''origin''),
    (ascii_bytes ''x-content-type-options'', ascii_bytes ''nosniff''),
    (ascii_bytes ''x-xss-protection'', ascii_bytes ''1; mode=block''),
    (ascii_bytes '':status'', ascii_bytes ''100''),
    (ascii_bytes '':status'', ascii_bytes ''204''),
    (ascii_bytes '':status'', ascii_bytes ''206''),
    (ascii_bytes '':status'', ascii_bytes ''302''),
    (ascii_bytes '':status'', ascii_bytes ''400''),
    (ascii_bytes '':status'', ascii_bytes ''403''),
    (ascii_bytes '':status'', ascii_bytes ''421''),
    (ascii_bytes '':status'', ascii_bytes ''425''),
    (ascii_bytes '':status'', ascii_bytes ''500''),
    (ascii_bytes ''accept-language'', []),
    (ascii_bytes ''access-control-allow-credentials'', ascii_bytes ''FALSE''),
    (ascii_bytes ''access-control-allow-credentials'', ascii_bytes ''TRUE''),
    (ascii_bytes ''access-control-allow-headers'', ascii_bytes ''*''),
    (ascii_bytes ''access-control-allow-methods'', ascii_bytes ''get''),
    (ascii_bytes ''access-control-allow-methods'', ascii_bytes ''get, post, options''),
    (ascii_bytes ''access-control-allow-methods'', ascii_bytes ''options''),
    (ascii_bytes ''access-control-expose-headers'', ascii_bytes ''content-length''),
    (ascii_bytes ''access-control-request-headers'', ascii_bytes ''content-type''),
    (ascii_bytes ''access-control-request-method'', ascii_bytes ''get''),
    (ascii_bytes ''access-control-request-method'', ascii_bytes ''post''),
    (ascii_bytes ''alt-svc'', ascii_bytes ''clear''),
    (ascii_bytes ''authorization'', []),
    (ascii_bytes ''content-security-policy'', ascii_bytes (''script-src '' @ [CHR 0x27] @ ''none'' @ [CHR 0x27] @ ''; object-src '' @ [CHR 0x27] @ ''none'' @ [CHR 0x27] @ ''; base-uri '' @ [CHR 0x27] @ ''none'' @ [CHR 0x27])),
    (ascii_bytes ''early-data'', ascii_bytes ''1''),
    (ascii_bytes ''expect-ct'', []),
    (ascii_bytes ''forwarded'', []),
    (ascii_bytes ''if-range'', []),
    (ascii_bytes ''origin'', []),
    (ascii_bytes ''purpose'', ascii_bytes ''prefetch''),
    (ascii_bytes ''server'', []),
    (ascii_bytes ''timing-allow-origin'', ascii_bytes ''*''),
    (ascii_bytes ''upgrade-insecure-requests'', ascii_bytes ''1''),
    (ascii_bytes ''user-agent'', []),
    (ascii_bytes ''x-forwarded-for'', []),
    (ascii_bytes ''x-frame-options'', ascii_bytes ''deny''),
    (ascii_bytes ''x-frame-options'', ascii_bytes ''sameorigin'')
  ]"

definition STATIC_TABLE_SIZE :: int where
  "STATIC_TABLE_SIZE = int (length STATIC_TABLE)"

section \<open>Dynamic table state tracker\<close>

definition ENTRY_OVERHEAD :: int where
  "ENTRY_OVERHEAD = 32"

record DynamicTableEntry =
  entry_name :: bytes
  entry_value :: bytes

definition entry_size :: "DynamicTableEntry \<Rightarrow> int" where
  "entry_size e = int (length (entry_name e)) + int (length (entry_value e)) + ENTRY_OVERHEAD"

text \<open>\<open>entries\<close> is newest first: index 0 is the most recently inserted entry.\<close>

record DynamicTableTracker =
  entries :: "DynamicTableEntry list"
  capacity :: int
  insert_count :: int

definition new_tracker :: DynamicTableTracker where
  "new_tracker = \<lparr>entries = [], capacity = 0, insert_count = 0\<rparr>"

definition current_size :: "DynamicTableTracker \<Rightarrow> int" where
  "current_size t = sum_list (map entry_size (entries t))"

text \<open>
  \<open>_evict\<close>: \<open>while self.current_size() > self.capacity and self.entries: self.entries.pop()\<close>.
  \<open>pop()\<close> removes the last element of the list, the oldest entry.
\<close>

function tracker_evict :: "DynamicTableTracker \<Rightarrow> DynamicTableTracker" where
  "tracker_evict t =
     (if current_size t > capacity t \<and> entries t \<noteq> []
      then tracker_evict (t\<lparr>entries := butlast (entries t)\<rparr>)
      else t)"
  by pat_completeness auto
termination
  by (relation "measure (\<lambda>t. length (entries t))") auto

declare tracker_evict.simps [simp del]

definition tracker_set_capacity :: "DynamicTableTracker \<Rightarrow> int \<Rightarrow> DynamicTableTracker" where
  "tracker_set_capacity t cap = tracker_evict (t\<lparr>capacity := cap\<rparr>)"

text \<open>
  The eviction loop of \<open>insert\<close> has no emptiness guard: \<open>pop()\<close> on an empty list
  would raise \<open>IndexError\<close> and leave the tracker as it is at that moment.
\<close>

function tracker_insert_loop ::
  "DynamicTableTracker \<Rightarrow> DynamicTableEntry \<Rightarrow> (error + unit) \<times> DynamicTableTracker" where
  "tracker_insert_loop t entry =
     (if current_size t + entry_size entry > capacity t
      then (if entries t = [] then (Inl IndexError, t)
            else tracker_insert_loop (t\<lparr>entries := butlast (entries t)\<rparr>) entry)
      else (Inr (), t))"
  by pat_completeness auto
termination
  by (relation "measure (\<lambda>(t, entry). length (entries t))") auto

declare tracker_insert_loop.simps [simp del]

definition tracker_insert ::
  "DynamicTableTracker \<Rightarrow> bytes \<Rightarrow> bytes \<Rightarrow> (error + unit) \<times> DynamicTableTracker" where
  "tracker_insert t nm v =
     (let entry = \<lparr>entry_name = nm, entry_value = v\<rparr> in
      if entry_size entry > capacity t then (Inl EntryTooLarge, t)
      else
        case tracker_insert_loop t entry of
          (Inl e, t') \<Rightarrow> (Inl e, t')
        | (Inr u, t') \<Rightarrow>
            (Inr (), t'\<lparr>entries := entry # entries t', insert_count := insert_count t' + 1\<rparr>))"

definition tracker_duplicate ::
  "DynamicTableTracker \<Rightarrow> int \<Rightarrow> (error + unit) \<times> DynamicTableTracker" where
  "tracker_duplicate t relative_index =
     (if relative_index < 0 \<or> relative_index \<ge> int (length (entries t))
      then (Inl IndexOutOfRange, t)
      else
        let source = entries t ! nat relative_index in
        tracker_insert t (entry_name source) (entry_value source))"

section \<open>ManualQpackEncoder\<close>

record ManualQpackEncoder =
  table :: DynamicTableTracker
  max_table_capacity :: int

definition new_encoder :: "int \<Rightarrow> ManualQpackEncoder" where
  "new_encoder m = \<lparr>table = new_tracker, max_table_capacity = m\<rparr>"

text \<open>The setter of the property \<open>max_table_capacity\<close>.\<close>

definition set_max_table_capacity :: "ManualQpackEncoder \<Rightarrow> int \<Rightarrow> ManualQpackEncoder" where
  "set_max_table_capacity enc m = enc\<lparr>max_table_capacity := m\<rparr>"

text \<open>
  Every method returns its outcome (the exception raised, or the instruction bytes)
  together with the encoder as the call leaves it.
\<close>

definition encoder_set_capacity ::
  "ManualQpackEncoder \<Rightarrow> int \<Rightarrow> (error + bytes) \<times> ManualQpackEncoder" where
  "encoder_set_capacity enc cap =
     (if cap < 0 then (Inl InvalidArgument, enc)
      else if cap > max_table_capacity enc then (Inl CapacityExceedsLimit, enc)
      else
        case set_dynamic_table_capacity cap of
          Inl e \<Rightarrow> (Inl e, enc)
        | Inr instruction \<Rightarrow>
            (Inr instruction, enc\<lparr>table := tracker_set_capacity (table enc) cap\<rparr>))"

definition encoder_insert_name_ref ::
  "ManualQpackEncoder \<Rightarrow> int \<Rightarrow> bytes \<Rightarrow> bool \<Rightarrow> (error + bytes) \<times> ManualQpackEncoder" where
  "encoder_insert_name_ref enc index v is_static =
     (case (if is_static
            then (if index < 0 \<or> index \<ge> STATIC_TABLE_SIZE then Inl IndexOutOfRange
                  else Inr (fst (STATIC_TABLE ! nat index)))
            else (if index < 0 \<or> index \<ge> int (length (entries (table enc)))
                  then Inl IndexOutOfRange
                  else Inr (entry_name (entries (table enc) ! nat index))))
      of
        Inl e \<Rightarrow> (Inl e, enc)
      | Inr nm \<Rightarrow>
          if int (length nm) + int (length v) + ENTRY_OVERHEAD > capacity (table enc)
          then (Inl EntryTooLarge, enc)
          else
            (case insert_with_name_ref index v is_static of
               Inl e \<Rightarrow> (Inl e, enc)
             | Inr instruction \<Rightarrow>
                 (case tracker_insert (table enc) nm v of
                    (Inl e, t') \<Rightarrow> (Inl e, enc\<lparr>table := t'\<rparr>)
                  | (Inr u, t') \<Rightarrow> (Inr instruction, enc\<lparr>table := t'\<rparr>))))"

definition encoder_insert_literal ::
  "ManualQpackEncoder \<Rightarrow> bytes \<Rightarrow> bytes \<Rightarrow> (error + bytes) \<times> ManualQpackEncoder" where
  "encoder_insert_literal enc nm v =
     (if int (length nm) + int (length v) + ENTRY_OVERHEAD > capacity (table enc)
      then (Inl EntryTooLarge, enc)
      else
        case insert_with_literal_name nm v of
          Inl e \<Rightarrow> (Inl e, enc)
        | Inr instruction \<Rightarrow>
            (case tracker_insert (table enc) nm v of
               (Inl e, t') \<Rightarrow> (Inl e, enc\<lparr>table := t'\<rparr>)
             | (Inr u, t') \<Rightarrow> (Inr instruction, enc\<lparr>table := t'\<rparr>)))"

definition encoder_duplicate ::
  "ManualQpackEncoder \<Rightarrow> int \<Rightarrow> (error + bytes) \<times> ManualQpackEncoder" where
  "encoder_duplicate enc relative_index =
     (if relative_index < 0 \<or> relative_index \<ge> int (length (entries (table enc)))
      then (Inl IndexOutOfRange, enc)
      else
        case duplicate relative_index of
          Inl e \<Rightarrow> (Inl e, enc)
        | Inr instruction \<Rightarrow>
            (case tracker_duplicate (table enc) relative_index of
               (Inl e, t') \<Rightarrow> (Inl e, enc\<lparr>table := t'\<rparr>)
             | (Inr u, t') \<Rightarrow> (Inr instruction, enc\<lparr>table := t'\<rparr>)))"

text \<open>
  The encoder states that a caller can produce: a fresh encoder, and the state left by
  any call (returning or raising) of a method or of the property setter on such a state.
\<close>

inductive reachable :: "ManualQpackEncoder \<Rightarrow> bool" where
  fresh: "reachable (new_encoder m)"
| via_setter: "reachable enc \<Longrightarrow> reachable (set_max_table_capacity enc m)"
| via_set_capacity: "reachable enc \<Longrightarrow> reachable (snd (encoder_set_capacity enc cap))"
| via_insert_name_ref:
    "reachable enc \<Longrightarrow> reachable (snd (encoder_insert_name_ref enc index v is_static))"
| via_insert_literal: "reachable enc \<Longrightarrow> reachable (snd (encoder_insert_literal enc nm v))"
| via_duplicate: "reachable enc \<Longrightarrow> reachable (snd (encoder_duplicate enc relative_index))"

section \<open>The wire format of Insert With Literal Name, as the documentation states it\<close>

text \<open>
  Written from the docstring of \<open>insert_with_literal_name\<close> and section 4.3 of the
  specification, not from the code: first byte \<open>01Hxxxxx\<close> with \<open>H = 0\<close>, the length of
  the name as a 5-bit-prefixed integer in the low five bits (with its continuation
  bytes), the name bytes, then the value as a 7-bit length-prefixed string.
\<close>

definition insert_with_literal_name_spec :: "bytes \<Rightarrow> bytes \<Rightarrow> error + bytes" where
  "insert_with_literal_name_spec nm v =
     result_bind (encode_integer (int (length nm)) 5) (\<lambda>length_bytes.
     result_bind (or_first_byte length_bytes 0x40) (\<lambda>buf.
     result_bind (encode_string v False) (\<lambda>value_str.
     Inr (buf @ nm @ value_str))))"

section \<open>Facts about bytes and bit fields\<close>

lemma and_7f: "(v::int) AND 0x7F = v mod 128"
proof -
  have "v AND mask 7 = v mod 2 ^ 7"
    by (simp only: take_bit_eq_mask [symmetric] take_bit_eq_mod)
  then show ?thesis by (simp add: mask_eq_exp_minus_1)
qed

lemma take_bit_and_exp: "take_bit n (v::int) AND 2 ^ n = 0"
  by (rule bit_eqI) (auto simp: bit_simps)

lemma and_80_mod: "((v::int) mod 128) AND 0x80 = 0"
  using take_bit_and_exp [of 7 v] by (simp add: take_bit_eq_mod)

lemma or_80: "((v::int) mod 128) OR 0x80 = v mod 128 + 128"
  using disjunctive_add_eq_or [OF and_80_mod, of v] by simp

lemma cont_byte_uint:
  "uint (word_of_int (((v::int) AND 0x7F) OR 0x80) :: byte) = v mod 128 + 128"
proof -
  have "0 \<le> v mod 128" "v mod 128 < 128" by simp_all
  then have "(v mod 128 + 128) mod 256 = v mod 128 + 128" by simp
  then show ?thesis by (simp only: and_7f or_80 uint_word_of_int) simp
qed

lemma low7: "(v mod 128 + 128) AND (0x7F::int) = v mod 128"
  by (simp add: and_7f)

lemma hi_bit: "(v mod 128 + 128) AND (0x80::int) = 128"
proof -
  have "(v mod 128 + 128) AND (0x80::int) = (v mod 128 OR 0x80) AND 0x80"
    by (simp add: or_80)
  also have "\<dots> = ((v mod 128) AND 0x80) OR (0x80 AND 0x80)"
    by (simp add: bit.conj_disj_distrib2)
  finally show ?thesis by (simp add: and_80_mod)
qed

lemma max_prefix_mask: "push_bit n (1::int) - 1 = mask n"
  by (simp add: mask_eq_exp_minus_1 push_bit_eq_mult)

lemma and_mask_small: "0 \<le> v \<Longrightarrow> v < 2 ^ n \<Longrightarrow> (v::int) AND mask n = v"
  by (simp add: take_bit_eq_mask [symmetric] take_bit_int_eq_self)

lemma small_byte: "0 \<le> v \<Longrightarrow> v < 256 \<Longrightarrow> uint (word_of_int v :: byte) = v"
  by (simp add: uint_word_of_int)

lemma py_getitem_append_mid:
  "py_getitem (pre @ x # rest) (int (length pre)) = Inr x"
  by (simp add: py_getitem_def)

lemma split_chunks:
  "push_bit s ((v::int) mod 128) + push_bit (s + 7) (drop_bit 7 v) = push_bit s v"
proof -
  have "(2::int) ^ s * (v mod 128) + 2 ^ s * (128 * (v div 128)) =
        2 ^ s * (v mod 128 + 128 * (v div 128))"
    by (simp only: distrib_left)
  also have "\<dots> = 2 ^ s * v" by simp
  finally show ?thesis
    by (simp add: push_bit_eq_mult drop_bit_eq_div power_add mult_ac)
qed

section \<open>Integer codec: round trip\<close>

text \<open>
  The decoding loop, started behind any prefix \<open>pre\<close> with accumulator \<open>acc\<close> and shift
  \<open>s\<close>, reads back what the encoding loop wrote for \<open>r\<close>, whatever follows it.
\<close>

lemma decode_encode_loop:
  "0 \<le> r \<Longrightarrow>
   decode_integer_loop (pre @ encode_integer_loop r @ suf) 0 (int (length pre)) acc s =
     Inr (acc + push_bit s r, int (length pre) + int (length (encode_integer_loop r)))"
proof (induction r arbitrary: pre acc s rule: encode_integer_loop.induct)
  case (1 v)
  show ?case
  proof (cases "v \<ge> 0x80")
    case True
    let ?b = "word_of_int ((v AND 0x7F) OR 0x80) :: byte"
    let ?tl = "encode_integer_loop (drop_bit 7 v)"
    have enc: "encode_integer_loop v = ?b # ?tl"
      using True by (subst encode_integer_loop.simps) simp
    have nonneg: "0 \<le> drop_bit 7 v" using "1.prems" by simp
    have len: "int (length (pre @ [?b])) = int (length pre) + 1" by simp
    have app: "(pre @ [?b]) @ ?tl @ suf = pre @ (?b # ?tl) @ suf" by simp
    have IH: "decode_integer_loop (pre @ (?b # ?tl) @ suf) 0 (int (length pre) + 1)
                (acc + push_bit s (v mod 128)) (s + 7) =
              Inr (acc + push_bit s (v mod 128) + push_bit (s + 7) (drop_bit 7 v),
                   int (length pre) + 1 + int (length ?tl))"
      using "1.IH" [OF True nonneg, where pre = "pre @ [?b]"
          and acc = "acc + push_bit s (v mod 128)" and s = "s + 7"]
      unfolding len app .
    have step: "decode_integer_loop (pre @ (?b # ?tl) @ suf) 0 (int (length pre)) acc s =
          decode_integer_loop (pre @ (?b # ?tl) @ suf) 0 (int (length pre) + 1)
             (acc + push_bit s (v mod 128)) (s + 7)"
      by (subst decode_integer_loop.simps)
         (simp add: py_getitem_append_mid cont_byte_uint low7 hi_bit Let_def)
    have "decode_integer_loop (pre @ encode_integer_loop v @ suf) 0 (int (length pre)) acc s =
          Inr (acc + push_bit s (v mod 128) + push_bit (s + 7) (drop_bit 7 v),
               int (length pre) + 1 + int (length ?tl))"
      unfolding enc using step IH by (rule trans)
    also have "acc + push_bit s (v mod 128) + push_bit (s + 7) (drop_bit 7 v) =
               acc + push_bit s v"
      using split_chunks [of s v] by simp
    also have "int (length pre) + 1 + int (length ?tl) =
               int (length pre) + int (length (encode_integer_loop v))"
      by (simp add: enc)
    finally show ?thesis .
  next
    case False
    then have small: "0 \<le> v" "v < 128" using "1.prems" by simp_all
    have enc: "encode_integer_loop v = [word_of_int v]"
      using False by (subst encode_integer_loop.simps) simp
    have u: "uint (word_of_int v :: byte) = v" using small by (simp add: small_byte)
    have low: "v AND 0x7F = v" using small by (simp add: and_7f)
    have hi: "v AND 0x80 = 0" using and_80_mod [of v] small by simp
    show ?thesis
      by (subst decode_integer_loop.simps)
         (simp add: enc py_getitem_append_mid u low hi Let_def)
  qed
qed

text \<open>
  Claim C1. For every non-negative integer \<open>v\<close> and every prefix width \<open>p\<close> from 1 to 8,
  \<open>encode_integer v p\<close> returns bytes, and decoding these bytes at offset 0 with
  prefix width \<open>p\<close> returns \<open>v\<close> together with the number of bytes of the encoding.
\<close>

theorem encode_decode_roundtrip:
  assumes "0 \<le> v" and "1 \<le> p" and "p \<le> 8"
  shows "\<exists>bs. encode_integer v p = Inr bs \<and>
              decode_integer bs 0 p = Inr (v, int (length bs))"
proof -
  define mp :: int where "mp = push_bit (nat p) 1 - 1"
  have mp_mask: "mp = mask (nat p)" unfolding mp_def by (rule max_prefix_mask)
  have "nat p \<le> 8" using assms by simp
  then have "(2::int) ^ nat p \<le> 2 ^ 8" by (rule power_increasing) simp
  then have mp_bound: "0 \<le> mp" "mp < 256" by (simp_all add: mp_mask mask_eq_exp_minus_1)
  show ?thesis
  proof (cases "v < mp")
    case True
    then have enc: "encode_integer v p = Inr [word_of_int v]"
      using assms by (simp add: encode_integer_def mp_def Let_def)
    have u: "uint (word_of_int v :: byte) = v"
      using True mp_bound assms by (simp add: small_byte)
    have "v < 2 ^ nat p" using True by (simp add: mp_mask mask_eq_exp_minus_1)
    then have a: "v AND mp = v" using assms by (simp add: mp_mask and_mask_small)
    have "decode_integer [word_of_int v] 0 p = Inr (v, 1)"
      unfolding decode_integer_def Let_def mp_def [symmetric]
      using assms True a u by (simp add: py_getitem_def)
    then show ?thesis using enc by simp
  next
    case False
    let ?tl = "encode_integer_loop (v - mp)"
    have enc: "encode_integer v p = Inr (word_of_int mp # ?tl)"
      using assms False by (simp add: encode_integer_def mp_def Let_def)
    have u: "uint (word_of_int mp :: byte) = mp" using mp_bound by (simp add: small_byte)
    have a: "mp AND mp = mp" by simp
    have r: "0 \<le> v - mp" using False by simp
    have loop: "decode_integer_loop ([word_of_int mp] @ ?tl @ []) 0
                  (int (length [word_of_int mp :: byte])) mp 0 =
                Inr (mp + push_bit 0 (v - mp),
                     int (length [word_of_int mp :: byte]) + int (length ?tl))"
      by (rule decode_encode_loop [OF r])
    have "decode_integer (word_of_int mp # ?tl) 0 p =
          Inr (v, int (length (word_of_int mp # ?tl)))"
      unfolding decode_integer_def Let_def mp_def [symmetric]
      using assms a u loop by (simp add: py_getitem_def)
    then show ?thesis using enc by simp
  qed
qed

theorem encode_decode_roundtrip_witness:
  "(0::int) \<le> 1337 \<and> (1::int) \<le> 5 \<and> (5::int) \<le> 8 \<and>
   encode_integer 1337 5 = Inr [0x1F, 0x9A, 0x0A] \<and>
   decode_integer [0x1F, 0x9A, 0x0A] 0 5 = Inr (1337, 3)"
proof -
  have enc: "encode_integer 1337 5 = Inr [0x1F, 0x9A, 0x0A]"
    by (simp add: encode_integer_def encode_integer_loop.simps)
  from encode_decode_roundtrip [of 1337 5] enc show ?thesis by simp
qed

section \<open>Dynamic table tracker: the eviction loops\<close>

lemma take_butlast_le:
  assumes "j \<le> length (butlast xs)"
  shows "take j (butlast xs) = take j xs"
proof -
  have "j \<le> length xs - 1" using assms by simp
  then have "min j (length xs - 1) = j" by simp
  then show ?thesis by (simp add: butlast_conv_take)
qed

lemma tracker_evict_spec:
  "\<exists>k \<le> length (entries t).
     tracker_evict t = t\<lparr>entries := take k (entries t)\<rparr> \<and>
     (sum_list (map entry_size (take k (entries t))) \<le> capacity t \<or> k = 0) \<and>
     (\<forall>j. k < j \<and> j \<le> length (entries t) \<longrightarrow>
          sum_list (map entry_size (take j (entries t))) > capacity t)"
proof (induction t rule: tracker_evict.induct)
  case (1 t)
  let ?es = "entries t"
  show ?case
  proof (cases "current_size t > capacity t \<and> ?es \<noteq> []")
    case True
    let ?t' = "t\<lparr>entries := butlast ?es\<rparr>"
    from "1.IH" [OF True] obtain k where
      k: "k \<le> length (butlast ?es)"
      and res: "tracker_evict ?t' = ?t'\<lparr>entries := take k (butlast ?es)\<rparr>"
      and fit: "sum_list (map entry_size (take k (butlast ?es))) \<le> capacity t \<or> k = 0"
      and more: "\<forall>j. k < j \<and> j \<le> length (butlast ?es) \<longrightarrow>
          sum_list (map entry_size (take j (butlast ?es))) > capacity t"
      by auto
    have unf: "tracker_evict t = tracker_evict ?t'"
      using True by (subst tracker_evict.simps) simp
    have tk: "take k (butlast ?es) = take k ?es" using k by (rule take_butlast_le)
    have "k \<le> length ?es" using k by simp
    moreover have "tracker_evict t = t\<lparr>entries := take k ?es\<rparr>"
      using unf res tk by simp
    moreover have "sum_list (map entry_size (take k ?es)) \<le> capacity t \<or> k = 0"
      using fit tk by simp
    moreover have "\<forall>j. k < j \<and> j \<le> length ?es \<longrightarrow>
          sum_list (map entry_size (take j ?es)) > capacity t"
    proof (intro allI impI)
      fix j assume j: "k < j \<and> j \<le> length ?es"
      show "sum_list (map entry_size (take j ?es)) > capacity t"
      proof (cases "j \<le> length (butlast ?es)")
        case True
        with more j have "sum_list (map entry_size (take j (butlast ?es))) > capacity t"
          by simp
        then show ?thesis using True by (simp add: take_butlast_le)
      next
        case False
        with j have "j = length ?es" by auto
        then show ?thesis using \<open>current_size t > capacity t \<and> ?es \<noteq> []\<close>
          by (simp add: current_size_def)
      qed
    qed
    ultimately show ?thesis by blast
  next
    case False
    then have "tracker_evict t = t" by (subst tracker_evict.simps) auto
    then have "tracker_evict t = t\<lparr>entries := take (length ?es) ?es\<rparr>" by simp
    moreover have "sum_list (map entry_size (take (length ?es) ?es)) \<le> capacity t \<or> length ?es = 0"
      using False by (auto simp: current_size_def)
    ultimately show ?thesis by (intro exI [of _ "length ?es"]) simp
  qed
qed

lemma tracker_insert_loop_spec:
  assumes "entry_size e \<le> capacity t"
  shows "\<exists>k \<le> length (entries t).
     tracker_insert_loop t e = (Inr (), t\<lparr>entries := take k (entries t)\<rparr>) \<and>
     sum_list (map entry_size (take k (entries t))) + entry_size e \<le> capacity t \<and>
     (\<forall>j. k < j \<and> j \<le> length (entries t) \<longrightarrow>
          sum_list (map entry_size (take j (entries t))) + entry_size e > capacity t)"
  using assms
proof (induction t e rule: tracker_insert_loop.induct)
  case (1 t e)
  let ?es = "entries t"
  show ?case
  proof (cases "current_size t + entry_size e > capacity t")
    case True
    have ne: "?es \<noteq> []"
    proof
      assume "?es = []"
      then have "current_size t = 0" by (simp add: current_size_def)
      with True "1.prems" show False by simp
    qed
    let ?t' = "t\<lparr>entries := butlast ?es\<rparr>"
    have "entry_size e \<le> capacity ?t'" using "1.prems" by simp
    from "1.IH" [OF True ne this] obtain k where
      k: "k \<le> length (butlast ?es)"
      and res: "tracker_insert_loop ?t' e = (Inr (), ?t'\<lparr>entries := take k (butlast ?es)\<rparr>)"
      and fit: "sum_list (map entry_size (take k (butlast ?es))) + entry_size e \<le> capacity t"
      and more: "\<forall>j. k < j \<and> j \<le> length (butlast ?es) \<longrightarrow>
          sum_list (map entry_size (take j (butlast ?es))) + entry_size e > capacity t"
      by auto
    have unf: "tracker_insert_loop t e = tracker_insert_loop ?t' e"
      using True ne by (subst tracker_insert_loop.simps) simp
    have tk: "take k (butlast ?es) = take k ?es" using k by (rule take_butlast_le)
    have "k \<le> length ?es" using k by simp
    moreover have "tracker_insert_loop t e = (Inr (), t\<lparr>entries := take k ?es\<rparr>)"
      using unf res tk by simp
    moreover have "sum_list (map entry_size (take k ?es)) + entry_size e \<le> capacity t"
      using fit tk by simp
    moreover have "\<forall>j. k < j \<and> j \<le> length ?es \<longrightarrow>
          sum_list (map entry_size (take j ?es)) + entry_size e > capacity t"
    proof (intro allI impI)
      fix j assume j: "k < j \<and> j \<le> length ?es"
      show "sum_list (map entry_size (take j ?es)) + entry_size e > capacity t"
      proof (cases "j \<le> length (butlast ?es)")
        case True
        with more j have "sum_list (map entry_size (take j (butlast ?es))) + entry_size e > capacity t"
          by simp
        then show ?thesis using True by (simp add: take_butlast_le)
      next
        case False
        with j have "j = length ?es" by auto
        then show ?thesis using \<open>current_size t + entry_size e > capacity t\<close>
          by (simp add: current_size_def)
      qed
    qed
    ultimately show ?thesis by blast
  next
    case False
    then have "tracker_insert_loop t e = (Inr (), t)" by (subst tracker_insert_loop.simps) simp
    then have "tracker_insert_loop t e = (Inr (), t\<lparr>entries := take (length ?es) ?es\<rparr>)" by simp
    moreover have "sum_list (map entry_size (take (length ?es) ?es)) + entry_size e \<le> capacity t"
      using False by (auto simp: current_size_def)
    ultimately show ?thesis by (intro exI [of _ "length ?es"]) simp
  qed
qed

section \<open>Dynamic table tracker: \<open>insert\<close>\<close>

lemma tracker_insert_too_large:
  "entry_size \<lparr>entry_name = nm, entry_value = v\<rparr> > capacity t \<Longrightarrow>
   tracker_insert t nm v = (Inl EntryTooLarge, t)"
  by (simp add: tracker_insert_def)

lemma tracker_insert_fits:
  assumes "entry_size \<lparr>entry_name = nm, entry_value = v\<rparr> \<le> capacity t"
  shows "\<exists>k \<le> length (entries t).
     tracker_insert t nm v =
       (Inr (), t\<lparr>entries := \<lparr>entry_name = nm, entry_value = v\<rparr> # take k (entries t),
                  insert_count := insert_count t + 1\<rparr>) \<and>
     sum_list (map entry_size (take k (entries t))) +
       entry_size \<lparr>entry_name = nm, entry_value = v\<rparr> \<le> capacity t \<and>
     (\<forall>j. k < j \<and> j \<le> length (entries t) \<longrightarrow>
          sum_list (map entry_size (take j (entries t))) +
            entry_size \<lparr>entry_name = nm, entry_value = v\<rparr> > capacity t)"
proof -
  let ?e = "\<lparr>entry_name = nm, entry_value = v\<rparr>"
  from tracker_insert_loop_spec [OF assms] obtain k where
    k: "k \<le> length (entries t)"
    and loop: "tracker_insert_loop t ?e = (Inr (), t\<lparr>entries := take k (entries t)\<rparr>)"
    and fit: "sum_list (map entry_size (take k (entries t))) + entry_size ?e \<le> capacity t"
    and more: "\<forall>j. k < j \<and> j \<le> length (entries t) \<longrightarrow>
          sum_list (map entry_size (take j (entries t))) + entry_size ?e > capacity t"
    by blast
  have "tracker_insert t nm v =
       (Inr (), t\<lparr>entries := ?e # take k (entries t), insert_count := insert_count t + 1\<rparr>)"
    using assms loop by (simp add: tracker_insert_def Let_def)
  with k fit more show ?thesis by blast
qed

lemma entry_size_eq:
  "entry_size \<lparr>entry_name = nm, entry_value = v\<rparr> = int (length nm) + int (length v) + 32"
  by (simp add: entry_size_def ENTRY_OVERHEAD_def)

text \<open>
  Claim C5. With \<open>s = len(name) + len(value) + 32\<close>, \<open>insert\<close> fails with EntryTooLarge
  exactly when \<open>s\<close> exceeds the capacity (and then leaves the tracker as it was).
  Otherwise it returns, and for some \<open>k\<close> the new list of entries is the new entry
  followed by the first (newest) \<open>k\<close> old entries: these fit together with the new
  entry, no longer prefix of the old list does, the capacity is unchanged and
  \<open>insert_count\<close> has grown by one.
\<close>

theorem tracker_insert_semantics:
  "(fst (tracker_insert t nm v) = Inl EntryTooLarge \<longleftrightarrow>
      int (length nm) + int (length v) + 32 > capacity t) \<and>
   (int (length nm) + int (length v) + 32 > capacity t \<longrightarrow> snd (tracker_insert t nm v) = t) \<and>
   (int (length nm) + int (length v) + 32 \<le> capacity t \<longrightarrow>
      (\<exists>k \<le> length (entries t).
         tracker_insert t nm v =
           (Inr (), \<lparr>entries = \<lparr>entry_name = nm, entry_value = v\<rparr> # take k (entries t),
                     capacity = capacity t,
                     insert_count = insert_count t + 1\<rparr>) \<and>
         sum_list (map entry_size (take k (entries t))) +
           (int (length nm) + int (length v) + 32) \<le> capacity t \<and>
         (\<forall>j. k < j \<and> j \<le> length (entries t) \<longrightarrow>
            sum_list (map entry_size (take j (entries t))) +
              (int (length nm) + int (length v) + 32) > capacity t)))"
proof (cases "int (length nm) + int (length v) + 32 > capacity t")
  case True
  then have "tracker_insert t nm v = (Inl EntryTooLarge, t)"
    by (simp add: tracker_insert_too_large entry_size_eq)
  with True show ?thesis by simp
next
  case False
  then have le: "entry_size \<lparr>entry_name = nm, entry_value = v\<rparr> \<le> capacity t"
    by (simp add: entry_size_eq)
  from tracker_insert_fits [OF le] obtain k where
    k: "k \<le> length (entries t)"
    and res: "tracker_insert t nm v =
       (Inr (), t\<lparr>entries := \<lparr>entry_name = nm, entry_value = v\<rparr> # take k (entries t),
                  insert_count := insert_count t + 1\<rparr>)"
    and fit: "sum_list (map entry_size (take k (entries t))) +
       entry_size \<lparr>entry_name = nm, entry_value = v\<rparr> \<le> capacity t"
    and more: "\<forall>j. k < j \<and> j \<le> length (entries t) \<longrightarrow>
          sum_list (map entry_size (take j (entries t))) +
            entry_size \<lparr>entry_name = nm, entry_value = v\<rparr> > capacity t"
    by blast
  have res': "tracker_insert t nm v =
           (Inr (), \<lparr>entries = \<lparr>entry_name = nm, entry_value = v\<rparr> # take k (entries t),
                     capacity = capacity t,
                     insert_count = insert_count t + 1\<rparr>)"
    using res by simp
  have "\<exists>k \<le> length (entries t).
         tracker_insert t nm v =
           (Inr (), \<lparr>entries = \<lparr>entry_name = nm, entry_value = v\<rparr> # take k (entries t),
                     capacity = capacity t,
                     insert_count = insert_count t + 1\<rparr>) \<and>
         sum_list (map entry_size (take k (entries t))) +
           (int (length nm) + int (length v) + 32) \<le> capacity t \<and>
         (\<forall>j. k < j \<and> j \<le> length (entries t) \<longrightarrow>
            sum_list (map entry_size (take j (entries t))) +
              (int (length nm) + int (length v) + 32) > capacity t)"
    using k res' fit more unfolding entry_size_eq by blast
  moreover have "fst (tracker_insert t nm v) \<noteq> Inl EntryTooLarge" using res by simp
  ultimately show ?thesis using False by simp
qed

theorem tracker_insert_semantics_witness:
  "int (length [0x63::byte]) + int (length [0x64::byte]) + 32 \<le> 70 \<and>
   (\<exists>k \<le> 2.
      tracker_insert
        \<lparr>entries = [\<lparr>entry_name = [0x78], entry_value = [0x79]\<rparr>,
                    \<lparr>entry_name = [0x61], entry_value = [0x62]\<rparr>],
         capacity = 70, insert_count = 2\<rparr> [0x63] [0x64] =
        (Inr (), \<lparr>entries = \<lparr>entry_name = [0x63], entry_value = [0x64]\<rparr> #
                     take k [\<lparr>entry_name = [0x78], entry_value = [0x79]\<rparr>,
                             \<lparr>entry_name = [0x61], entry_value = [0x62]\<rparr>],
                  capacity = 70, insert_count = 3\<rparr>))"
  using tracker_insert_semantics
    [of "\<lparr>entries = [\<lparr>entry_name = [0x78], entry_value = [0x79]\<rparr>,
                    \<lparr>entry_name = [0x61], entry_value = [0x62]\<rparr>],
         capacity = 70, insert_count = 2\<rparr>" "[0x63]" "[0x64]"]
  by (fastforce simp: numeral_2_eq_2)

section \<open>Dynamic table tracker: \<open>set_capacity\<close>, \<open>duplicate\<close> and the outcomes of \<open>insert\<close>\<close>

lemma tracker_set_capacity_spec:
  "\<exists>k \<le> length (entries t).
     tracker_set_capacity t c = t\<lparr>entries := take k (entries t), capacity := c\<rparr> \<and>
     (sum_list (map entry_size (take k (entries t))) \<le> c \<or> k = 0) \<and>
     (\<forall>j. k < j \<and> j \<le> length (entries t) \<longrightarrow>
          sum_list (map entry_size (take j (entries t))) > c)"
proof -
  from tracker_evict_spec [of "t\<lparr>capacity := c\<rparr>"] obtain k where
    k: "k \<le> length (entries t)"
    and res: "tracker_evict (t\<lparr>capacity := c\<rparr>) =
              t\<lparr>capacity := c, entries := take k (entries t)\<rparr>"
    and fit: "sum_list (map entry_size (take k (entries t))) \<le> c \<or> k = 0"
    and more: "\<forall>j. k < j \<and> j \<le> length (entries t) \<longrightarrow>
          sum_list (map entry_size (take j (entries t))) > c"
    by auto
  have "tracker_set_capacity t c = t\<lparr>entries := take k (entries t), capacity := c\<rparr>"
    using res by (simp add: tracker_set_capacity_def)
  with k fit more show ?thesis by blast
qed

lemma tracker_insert_cases:
  "tracker_insert t nm v = (Inl EntryTooLarge, t) \<or>
   (\<exists>k \<le> length (entries t).
      tracker_insert t nm v =
        (Inr (), t\<lparr>entries := \<lparr>entry_name = nm, entry_value = v\<rparr> # take k (entries t),
                   insert_count := insert_count t + 1\<rparr>) \<and>
      sum_list (map entry_size (take k (entries t))) +
        entry_size \<lparr>entry_name = nm, entry_value = v\<rparr> \<le> capacity t)"
proof (cases "entry_size \<lparr>entry_name = nm, entry_value = v\<rparr> > capacity t")
  case True
  then show ?thesis by (simp add: tracker_insert_too_large)
next
  case False
  then have "entry_size \<lparr>entry_name = nm, entry_value = v\<rparr> \<le> capacity t" by simp
  from tracker_insert_fits [OF this] show ?thesis by blast
qed

lemma tracker_insert_size:
  assumes "fst (tracker_insert t nm v) = Inr ()"
  shows "current_size (snd (tracker_insert t nm v)) \<le> capacity (snd (tracker_insert t nm v))"
  using tracker_insert_cases [of t nm v] assms
  by (auto simp: current_size_def)

lemma tracker_duplicate_cases:
  "tracker_duplicate t i = (Inl IndexOutOfRange, t) \<or>
   (0 \<le> i \<and> i < int (length (entries t)) \<and>
    tracker_duplicate t i =
      tracker_insert t (entry_name (entries t ! nat i)) (entry_value (entries t ! nat i)))"
  by (simp add: tracker_duplicate_def Let_def)

lemma tracker_set_capacity_size:
  assumes "0 \<le> c"
  shows "current_size (tracker_set_capacity t c) \<le> capacity (tracker_set_capacity t c)"
proof -
  from tracker_set_capacity_spec [of t c] obtain k where
    res: "tracker_set_capacity t c = t\<lparr>entries := take k (entries t), capacity := c\<rparr>"
    and fit: "sum_list (map entry_size (take k (entries t))) \<le> c \<or> k = 0"
    by blast
  from fit assms have "sum_list (map entry_size (take k (entries t))) \<le> c" by auto
  then show ?thesis by (simp add: res current_size_def)
qed

section \<open>Dynamic table tracker: size invariant and insertion counter\<close>

text \<open>
  Claim C3, amended. After \<open>set_capacity\<close> with a non-negative capacity, after every
  \<open>insert\<close> that returns and after every \<open>duplicate\<close> that returns, the sum of the
  sizes of the present entries is at most the capacity, from every starting state.
  \<open>set_capacity\<close> itself accepts any integer and never fails.
\<close>

theorem tracker_size_invariant:
  "(0 \<le> c \<longrightarrow>
      current_size (tracker_set_capacity t c) \<le> capacity (tracker_set_capacity t c)) \<and>
   (fst (tracker_insert t nm v) = Inr () \<longrightarrow>
      current_size (snd (tracker_insert t nm v)) \<le> capacity (snd (tracker_insert t nm v))) \<and>
   (fst (tracker_duplicate t i) = Inr () \<longrightarrow>
      current_size (snd (tracker_duplicate t i)) \<le> capacity (snd (tracker_duplicate t i)))"
proof (intro conjI impI)
  assume "0 \<le> c"
  then show "current_size (tracker_set_capacity t c) \<le> capacity (tracker_set_capacity t c)"
    by (rule tracker_set_capacity_size)
next
  assume "fst (tracker_insert t nm v) = Inr ()"
  then show "current_size (snd (tracker_insert t nm v)) \<le>
             capacity (snd (tracker_insert t nm v))"
    by (rule tracker_insert_size)
next
  assume ok: "fst (tracker_duplicate t i) = Inr ()"
  from tracker_duplicate_cases [of t i] ok
  have eq: "tracker_duplicate t i =
      tracker_insert t (entry_name (entries t ! nat i)) (entry_value (entries t ! nat i))"
    by auto
  with ok show "current_size (snd (tracker_duplicate t i)) \<le>
                capacity (snd (tracker_duplicate t i))"
    by (simp add: tracker_insert_size)
qed

text \<open>
  Claim C3 as stated fails for a negative capacity, which \<open>set_capacity\<close> of the tracker
  accepts: the loop of \<open>_evict\<close> stops at the empty table, whose size 0 exceeds \<open>-1\<close>.
\<close>

theorem tracker_size_invariant_counterexample:
  "\<not> current_size (tracker_set_capacity new_tracker (- 1)) \<le>
     capacity (tracker_set_capacity new_tracker (- 1))"
  by (simp add: tracker_set_capacity_def new_tracker_def tracker_evict.simps current_size_def)

theorem tracker_size_invariant_witness:
  "(0::int) \<le> 30 \<and>
   fst (tracker_insert \<lparr>entries = [], capacity = 100, insert_count = 0\<rparr> [0x78] [0x79]) = Inr () \<and>
   fst (tracker_duplicate
          \<lparr>entries = [\<lparr>entry_name = [0x78], entry_value = [0x79]\<rparr>],
           capacity = 100, insert_count = 1\<rparr> 0) = Inr () \<and>
   current_size (tracker_set_capacity
          \<lparr>entries = [\<lparr>entry_name = [0x78], entry_value = [0x79]\<rparr>],
           capacity = 100, insert_count = 1\<rparr> 30) \<le>
     capacity (tracker_set_capacity
          \<lparr>entries = [\<lparr>entry_name = [0x78], entry_value = [0x79]\<rparr>],
           capacity = 100, insert_count = 1\<rparr> 30) \<and>
   current_size (snd (tracker_insert \<lparr>entries = [], capacity = 100, insert_count = 0\<rparr>
                        [0x78] [0x79])) \<le>
     capacity (snd (tracker_insert \<lparr>entries = [], capacity = 100, insert_count = 0\<rparr>
                        [0x78] [0x79])) \<and>
   current_size (snd (tracker_duplicate
          \<lparr>entries = [\<lparr>entry_name = [0x78], entry_value = [0x79]\<rparr>],
           capacity = 100, insert_count = 1\<rparr> 0)) \<le>
     capacity (snd (tracker_duplicate
          \<lparr>entries = [\<lparr>entry_name = [0x78], entry_value = [0x79]\<rparr>],
           capacity = 100, insert_count = 1\<rparr> 0))"
proof -
  have a: "fst (tracker_insert \<lparr>entries = [], capacity = 100, insert_count = 0\<rparr>
                  [0x78] [0x79]) = Inr ()"
    by (simp add: tracker_insert_def tracker_insert_loop.simps entry_size_def
          ENTRY_OVERHEAD_def current_size_def)
  have b: "fst (tracker_duplicate
          \<lparr>entries = [\<lparr>entry_name = [0x78], entry_value = [0x79]\<rparr>],
           capacity = 100, insert_count = 1\<rparr> 0) = Inr ()"
    by (simp add: tracker_duplicate_def tracker_insert_def tracker_insert_loop.simps
          entry_size_def ENTRY_OVERHEAD_def current_size_def Let_def)
  show ?thesis
    using a b
      tracker_size_invariant [of 30
        "\<lparr>entries = [\<lparr>entry_name = [0x78], entry_value = [0x79]\<rparr>],
           capacity = 100, insert_count = 1\<rparr>" "[]" "[]" 0]
      tracker_size_invariant [of 30
        "\<lparr>entries = [], capacity = 100, insert_count = 0\<rparr>" "[0x78]" "[0x79]" 0]
    by simp
qed

text \<open>
  Claim C6. \<open>insert_count\<close> grows by exactly one in every \<open>insert\<close> and every
  \<open>duplicate\<close> that returns; \<open>set_capacity\<close>, eviction and every failing operation
  leave it unchanged; so no operation decreases it.
\<close>

theorem insert_count_monotone:
  "(fst (tracker_insert t nm v) = Inr () \<longrightarrow>
      insert_count (snd (tracker_insert t nm v)) = insert_count t + 1) \<and>
   (fst (tracker_duplicate t i) = Inr () \<longrightarrow>
      insert_count (snd (tracker_duplicate t i)) = insert_count t + 1) \<and>
   insert_count (tracker_set_capacity t c) = insert_count t \<and>
   insert_count (tracker_evict t) = insert_count t \<and>
   (fst (tracker_insert t nm v) \<noteq> Inr () \<longrightarrow>
      insert_count (snd (tracker_insert t nm v)) = insert_count t) \<and>
   (fst (tracker_duplicate t i) \<noteq> Inr () \<longrightarrow>
      insert_count (snd (tracker_duplicate t i)) = insert_count t) \<and>
   insert_count t \<le> insert_count (snd (tracker_insert t nm v)) \<and>
   insert_count t \<le> insert_count (snd (tracker_duplicate t i))"
proof -
  have ins: "\<And>nm v. tracker_insert t nm v = (Inl EntryTooLarge, t) \<or>
      (fst (tracker_insert t nm v) = Inr () \<and>
       insert_count (snd (tracker_insert t nm v)) = insert_count t + 1)"
    subgoal for nm v using tracker_insert_cases [of t nm v] by auto
    done
  have dup: "tracker_duplicate t i = (Inl IndexOutOfRange, t) \<or>
      tracker_duplicate t i = (Inl EntryTooLarge, t) \<or>
      (fst (tracker_duplicate t i) = Inr () \<and>
       insert_count (snd (tracker_duplicate t i)) = insert_count t + 1)"
    using tracker_duplicate_cases [of t i]
      ins [of "entry_name (entries t ! nat i)" "entry_value (entries t ! nat i)"]
    by auto
  have cap: "insert_count (tracker_set_capacity t c) = insert_count t"
    using tracker_set_capacity_spec [of t c] by auto
  have ev: "insert_count (tracker_evict t) = insert_count t"
    using tracker_evict_spec [of t] by auto
  show ?thesis using ins [of nm v] dup cap ev by auto
qed

theorem insert_count_monotone_witness:
  "fst (tracker_insert \<lparr>entries = [], capacity = 100, insert_count = 0\<rparr> [0x78] [0x79]) = Inr () \<and>
   fst (tracker_duplicate
          \<lparr>entries = [\<lparr>entry_name = [0x78], entry_value = [0x79]\<rparr>],
           capacity = 100, insert_count = 1\<rparr> 0) = Inr () \<and>
   fst (tracker_insert \<lparr>entries = [], capacity = 30, insert_count = 7\<rparr> [0x78] [0x79]) \<noteq> Inr () \<and>
   fst (tracker_duplicate \<lparr>entries = [], capacity = 30, insert_count = 7\<rparr> 5) \<noteq> Inr () \<and>
   insert_count (snd (tracker_insert \<lparr>entries = [], capacity = 100, insert_count = 0\<rparr>
                        [0x78] [0x79])) = 1 \<and>
   insert_count (snd (tracker_duplicate
          \<lparr>entries = [\<lparr>entry_name = [0x78], entry_value = [0x79]\<rparr>],
           capacity = 100, insert_count = 1\<rparr> 0)) = 2 \<and>
   insert_count (snd (tracker_insert \<lparr>entries = [], capacity = 30, insert_count = 7\<rparr>
                        [0x78] [0x79])) = 7 \<and>
   insert_count (snd (tracker_duplicate \<lparr>entries = [], capacity = 30, insert_count = 7\<rparr> 5)) = 7"
proof -
  have a: "fst (tracker_insert \<lparr>entries = [], capacity = 100, insert_count = 0\<rparr>
                  [0x78] [0x79]) = Inr ()"
    by (simp add: tracker_insert_def tracker_insert_loop.simps entry_size_def
          ENTRY_OVERHEAD_def current_size_def)
  have b: "fst (tracker_duplicate
          \<lparr>entries = [\<lparr>entry_name = [0x78], entry_value = [0x79]\<rparr>],
           capacity = 100, insert_count = 1\<rparr> 0) = Inr ()"
    by (simp add: tracker_duplicate_def tracker_insert_def tracker_insert_loop.simps
          entry_size_def ENTRY_OVERHEAD_def current_size_def Let_def)
  have c: "fst (tracker_insert \<lparr>entries = [], capacity = 30, insert_count = 7\<rparr>
                  [0x78] [0x79]) \<noteq> Inr ()"
    by (simp add: tracker_insert_def entry_size_def ENTRY_OVERHEAD_def)
  have d: "fst (tracker_duplicate \<lparr>entries = [], capacity = 30, insert_count = 7\<rparr> 5) \<noteq> Inr ()"
    by (simp add: tracker_duplicate_def)
  show ?thesis
    using a b c d
      insert_count_monotone [of "\<lparr>entries = [], capacity = 100, insert_count = 0\<rparr>"
        "[0x78]" "[0x79]" 0 0]
      insert_count_monotone [of
        "\<lparr>entries = [\<lparr>entry_name = [0x78], entry_value = [0x79]\<rparr>],
           capacity = 100, insert_count = 1\<rparr>" "[]" "[]" 0 0]
      insert_count_monotone [of "\<lparr>entries = [], capacity = 30, insert_count = 7\<rparr>"
        "[0x78]" "[0x79]" 5 0]
    by simp
qed

section \<open>Instruction builders\<close>

lemma take_bit_small_byte:
  "0 \<le> x \<Longrightarrow> x < 2 ^ n \<Longrightarrow> take_bit n (word_of_int x :: byte) = word_of_int x"
  by (simp add: take_bit_int_eq_self take_bit_of_int)

lemma low_bits_or:
  "take_bit n (b0::byte) = b0 \<Longrightarrow> take_bit n m = 0 \<Longrightarrow> take_bit n (b0 OR m) = b0"
  by (simp add: take_bit_or)

lemma high_bit_clear: "take_bit n (b0::byte) = b0 \<Longrightarrow> n \<le> j \<Longrightarrow> \<not> bit b0 j"
  by (metis bit_take_bit_iff not_less)

lemma encode_integer_first_byte:
  assumes "0 \<le> v" and "1 \<le> p" and "p \<le> 8"
  shows "\<exists>b0 rest. encode_integer v p = Inr (b0 # rest) \<and> take_bit (nat p) b0 = b0"
proof -
  define mp :: int where "mp = push_bit (nat p) 1 - 1"
  have mp: "0 \<le> mp" "mp < 2 ^ nat p" by (simp_all add: mp_def push_bit_eq_mult)
  show ?thesis
  proof (cases "v < mp")
    case True
    then have "encode_integer v p = Inr [word_of_int v]"
      using assms by (simp add: encode_integer_def mp_def Let_def)
    moreover have "take_bit (nat p) (word_of_int v :: byte) = word_of_int v"
      using True mp assms by (intro take_bit_small_byte) simp_all
    ultimately show ?thesis by blast
  next
    case False
    then have "encode_integer v p = Inr (word_of_int mp # encode_integer_loop (v - mp))"
      using assms by (simp add: encode_integer_def mp_def Let_def)
    moreover have "take_bit (nat p) (word_of_int mp :: byte) = word_of_int mp"
      using mp by (intro take_bit_small_byte) simp_all
    ultimately show ?thesis by blast
  qed
qed

lemma encode_string_ok:
  "\<exists>lenb. encode_integer (int (length s)) 7 = Inr lenb \<and> encode_string s False = Inr (lenb @ s)"
proof -
  from encode_integer_first_byte [of "int (length s)" 7]
  obtain b0 rest where "encode_integer (int (length s)) 7 = Inr (b0 # rest)" by auto
  then show ?thesis by (simp add: encode_string_def)
qed

lemma set_dynamic_table_capacity_ok:
  assumes "0 \<le> c"
  shows "\<exists>b0 rest. set_dynamic_table_capacity c = Inr (b0 # rest) \<and>
           drop_bit 5 b0 = 1 \<and> encode_integer c 5 = Inr ((b0 AND 0x1F) # rest)"
proof -
  from encode_integer_first_byte [of c 5] assms obtain x rest where
    enc: "encode_integer c 5 = Inr (x # rest)" and low: "take_bit 5 x = x" by auto
  have res: "set_dynamic_table_capacity c = Inr ((x OR 0x20) # rest)"
    using assms enc by (simp add: set_dynamic_table_capacity_def or_first_byte_def)
  have "drop_bit 5 x = 0" using low by (simp add: take_bit_eq_self_iff_drop_bit_eq_0)
  then have top: "drop_bit 5 (x OR 0x20) = 1" by (simp add: drop_bit_or)
  have "take_bit 5 (x OR 0x20) = x" using low by (intro low_bits_or) simp_all
  then have "(x OR 0x20) AND mask 5 = x" by (simp add: take_bit_eq_mask)
  then have "(x OR 0x20) AND 0x1F = x" by (simp add: mask_eq_exp_minus_1)
  with res top enc show ?thesis by simp
qed

lemma insert_with_name_ref_ok:
  assumes "0 \<le> i"
  shows "\<exists>b0 rest lenb. insert_with_name_ref i v is_static = Inr (b0 # rest @ lenb @ v) \<and>
           bit b0 7 \<and> (bit b0 6 \<longleftrightarrow> is_static) \<and>
           encode_integer i 6 = Inr ((b0 AND 0x3F) # rest) \<and>
           encode_integer (int (length v)) 7 = Inr lenb"
proof -
  from encode_integer_first_byte [of i 6] assms obtain x rest where
    enc: "encode_integer i 6 = Inr (x # rest)" and low: "take_bit 6 x = x" by auto
  from encode_string_ok [of v] obtain lenb where
    lenb: "encode_integer (int (length v)) 7 = Inr lenb"
    and str: "encode_string v False = Inr (lenb @ v)" by blast
  define flag :: byte where "flag = (if is_static then 0x40 else 0)"
  have res: "insert_with_name_ref i v is_static = Inr (((x OR 0x80) OR flag) # rest @ lenb @ v)"
    using assms enc str by (simp add: insert_with_name_ref_def or_first_byte_def flag_def)
  have x6: "\<not> bit x 6" using low by (rule high_bit_clear) simp
  have b7: "bit ((x OR 0x80) OR flag) 7" by (simp add: bit_or_iff)
  have b6: "bit ((x OR 0x80) OR flag) 6 \<longleftrightarrow> is_static"
    using x6 by (simp add: bit_or_iff flag_def)
  have "take_bit 6 ((x OR 0x80) OR flag) = x"
    unfolding or.assoc using low by (intro low_bits_or) (simp_all add: flag_def take_bit_or)
  then have "((x OR 0x80) OR flag) AND mask 6 = x" by (simp add: take_bit_eq_mask)
  then have "((x OR 0x80) OR flag) AND 0x3F = x" by (simp add: mask_eq_exp_minus_1)
  with res b7 b6 enc lenb show ?thesis by simp
qed

lemma insert_with_literal_name_ok:
  "\<exists>bs. insert_with_literal_name nm v = Inr bs"
proof -
  from encode_integer_first_byte [of "int (length nm)" 7]
  obtain b0 rest where "encode_integer (int (length nm)) 7 = Inr (b0 # rest)" by auto
  moreover from encode_string_ok [of v] obtain lenb where
    "encode_string v False = Inr (lenb @ v)" by blast
  ultimately show ?thesis
    by (simp add: insert_with_literal_name_def encode_string_def or_first_byte_def)
qed

lemma duplicate_ok: "0 \<le> i \<Longrightarrow> \<exists>bs. duplicate i = Inr bs"
  using encode_integer_first_byte [of i 5] by (auto simp: duplicate_def)

section \<open>Encoder methods\<close>

lemma encoder_set_capacity_cases:
  "encoder_set_capacity enc c = (Inl InvalidArgument, enc) \<and> c < 0 \<or>
   encoder_set_capacity enc c = (Inl CapacityExceedsLimit, enc) \<and> 0 \<le> c \<and>
     c > max_table_capacity enc \<or>
   (\<exists>bs. set_dynamic_table_capacity c = Inr bs \<and> 0 \<le> c \<and> c \<le> max_table_capacity enc \<and>
      encoder_set_capacity enc c =
        (Inr bs, enc\<lparr>table := tracker_set_capacity (table enc) c\<rparr>))"
proof (cases "0 \<le> c")
  case True
  from set_dynamic_table_capacity_ok [OF True] obtain bs
    where "set_dynamic_table_capacity c = Inr bs" by blast
  with True show ?thesis by (simp add: encoder_set_capacity_def)
next
  case False
  then show ?thesis by (simp add: encoder_set_capacity_def)
qed

text \<open>
  After its size check, an encoder method that inserts \<open>(nm, v)\<close> returns the
  instruction and leaves the tracker as \<open>insert\<close> leaves it, which returns.
\<close>

lemma tracker_insert_after_check:
  assumes "\<not> int (length nm) + int (length v) + ENTRY_OVERHEAD > capacity t"
  shows "\<exists>t'. tracker_insert t nm v = (Inr (), t')"
proof -
  have "entry_size \<lparr>entry_name = nm, entry_value = v\<rparr> \<le> capacity t"
    using assms by (simp add: entry_size_def)
  from tracker_insert_fits [OF this] show ?thesis by blast
qed

lemma encoder_insert_literal_cases:
  "encoder_insert_literal enc nm v = (Inl EntryTooLarge, enc) \<and>
     int (length nm) + int (length v) + 32 > capacity (table enc) \<or>
   (\<exists>bs t'. insert_with_literal_name nm v = Inr bs \<and>
      int (length nm) + int (length v) + 32 \<le> capacity (table enc) \<and>
      tracker_insert (table enc) nm v = (Inr (), t') \<and>
      encoder_insert_literal enc nm v = (Inr bs, enc\<lparr>table := t'\<rparr>))"
proof (cases "int (length nm) + int (length v) + ENTRY_OVERHEAD > capacity (table enc)")
  case True
  then show ?thesis by (simp add: encoder_insert_literal_def ENTRY_OVERHEAD_def)
next
  case False
  from tracker_insert_after_check [OF False] obtain t'
    where "tracker_insert (table enc) nm v = (Inr (), t')" by blast
  moreover from insert_with_literal_name_ok [of nm v] obtain bs
    where "insert_with_literal_name nm v = Inr bs" by blast
  ultimately show ?thesis
    using False by (simp add: encoder_insert_literal_def ENTRY_OVERHEAD_def)
qed

lemma encoder_insert_name_ref_index_error:
  assumes "(is_static \<and> (i < 0 \<or> STATIC_TABLE_SIZE \<le> i)) \<or>
           (\<not> is_static \<and> (i < 0 \<or> int (length (entries (table enc))) \<le> i))"
  shows "encoder_insert_name_ref enc i v is_static = (Inl IndexOutOfRange, enc)"
  using assms by (auto simp: encoder_insert_name_ref_def)

lemma encoder_insert_name_ref_resolved:
  assumes "(is_static \<and> 0 \<le> i \<and> i < STATIC_TABLE_SIZE \<and> nm = fst (STATIC_TABLE ! nat i)) \<or>
           (\<not> is_static \<and> 0 \<le> i \<and> i < int (length (entries (table enc))) \<and>
              nm = entry_name (entries (table enc) ! nat i))"
  shows "encoder_insert_name_ref enc i v is_static = (Inl EntryTooLarge, enc) \<and>
     int (length nm) + int (length v) + 32 > capacity (table enc) \<or>
   (\<exists>bs t'. insert_with_name_ref i v is_static = Inr bs \<and>
      int (length nm) + int (length v) + 32 \<le> capacity (table enc) \<and>
      tracker_insert (table enc) nm v = (Inr (), t') \<and>
      encoder_insert_name_ref enc i v is_static = (Inr bs, enc\<lparr>table := t'\<rparr>))"
proof (cases "int (length nm) + int (length v) + ENTRY_OVERHEAD > capacity (table enc)")
  case True
  then show ?thesis
    using assms by (auto simp: encoder_insert_name_ref_def ENTRY_OVERHEAD_def)
next
  case False
  from tracker_insert_after_check [OF False] obtain t'
    where "tracker_insert (table enc) nm v = (Inr (), t')" by blast
  moreover have "0 \<le> i" using assms by auto
  from insert_with_name_ref_ok [OF this, of v is_static] obtain bs
    where "insert_with_name_ref i v is_static = Inr bs" by blast
  ultimately show ?thesis
    using False assms by (auto simp: encoder_insert_name_ref_def ENTRY_OVERHEAD_def)
qed

lemma encoder_duplicate_cases:
  "encoder_duplicate enc i = (Inl IndexOutOfRange, enc) \<and>
     (i < 0 \<or> int (length (entries (table enc))) \<le> i) \<or>
   (0 \<le> i \<and> i < int (length (entries (table enc))) \<and>
    (\<exists>bs. duplicate i = Inr bs \<and>
       (encoder_duplicate enc i = (Inl EntryTooLarge, enc) \<and>
          entry_size (entries (table enc) ! nat i) > capacity (table enc) \<or>
        (\<exists>t'. tracker_insert (table enc) (entry_name (entries (table enc) ! nat i))
                 (entry_value (entries (table enc) ! nat i)) = (Inr (), t') \<and>
              entry_size (entries (table enc) ! nat i) \<le> capacity (table enc) \<and>
              encoder_duplicate enc i = (Inr bs, enc\<lparr>table := t'\<rparr>)))))"
proof (cases "i < 0 \<or> int (length (entries (table enc))) \<le> i")
  case True
  then show ?thesis by (auto simp: encoder_duplicate_def)
next
  case False
  let ?src = "entries (table enc) ! nat i"
  have i: "0 \<le> i" "i < int (length (entries (table enc)))" using False by auto
  from duplicate_ok [OF i(1)] obtain bs where bs: "duplicate i = Inr bs" by blast
  have dup: "tracker_duplicate (table enc) i =
             tracker_insert (table enc) (entry_name ?src) (entry_value ?src)"
    using i by (simp add: tracker_duplicate_def Let_def)
  have sz: "entry_size \<lparr>entry_name = entry_name ?src, entry_value = entry_value ?src\<rparr> =
            entry_size ?src"
    by (simp add: entry_size_def)
  show ?thesis
  proof (cases "entry_size ?src > capacity (table enc)")
    case True
    then have "tracker_insert (table enc) (entry_name ?src) (entry_value ?src) =
               (Inl EntryTooLarge, table enc)"
      by (intro tracker_insert_too_large) (simp add: sz)
    then show ?thesis using i bs dup True by (simp add: encoder_duplicate_def)
  next
    case False
    then have "entry_size \<lparr>entry_name = entry_name ?src, entry_value = entry_value ?src\<rparr>
               \<le> capacity (table enc)"
      by (simp add: sz)
    from tracker_insert_fits [OF this] obtain t' where
      "tracker_insert (table enc) (entry_name ?src) (entry_value ?src) = (Inr (), t')"
      by blast
    then show ?thesis using i bs dup False by (simp add: encoder_duplicate_def)
  qed
qed

section \<open>Encoder: a failing call changes nothing\<close>

text \<open>
  Claim C4. A call of \<open>set_capacity\<close>, \<open>insert_name_ref\<close>, \<open>insert_literal\<close> or
  \<open>duplicate\<close> of the encoder that fails, with whatever error, leaves the encoder as
  it was before the call: the tracker's entries, capacity and \<open>insert_count\<close> (and the
  ceiling \<open>max_table_capacity\<close>) are unchanged.
\<close>

theorem encoder_failure_atomic:
  "(fst (encoder_set_capacity enc c) = Inl err1 \<longrightarrow> snd (encoder_set_capacity enc c) = enc) \<and>
   (fst (encoder_insert_name_ref enc i v is_static) = Inl err2 \<longrightarrow>
      snd (encoder_insert_name_ref enc i v is_static) = enc) \<and>
   (fst (encoder_insert_literal enc nm w) = Inl err3 \<longrightarrow>
      snd (encoder_insert_literal enc nm w) = enc) \<and>
   (fst (encoder_duplicate enc j) = Inl err4 \<longrightarrow> snd (encoder_duplicate enc j) = enc)"
proof (intro conjI impI)
  assume "fst (encoder_set_capacity enc c) = Inl err1"
  then show "snd (encoder_set_capacity enc c) = enc"
    using encoder_set_capacity_cases [of enc c] by auto
next
  assume f: "fst (encoder_insert_name_ref enc i v is_static) = Inl err2"
  show "snd (encoder_insert_name_ref enc i v is_static) = enc"
  proof (cases "(is_static \<and> (i < 0 \<or> STATIC_TABLE_SIZE \<le> i)) \<or>
           (\<not> is_static \<and> (i < 0 \<or> int (length (entries (table enc))) \<le> i))")
    case True
    then show ?thesis by (simp add: encoder_insert_name_ref_index_error)
  next
    case False
    define nm where "nm = (if is_static then fst (STATIC_TABLE ! nat i)
                           else entry_name (entries (table enc) ! nat i))"
    have "(is_static \<and> 0 \<le> i \<and> i < STATIC_TABLE_SIZE \<and> nm = fst (STATIC_TABLE ! nat i)) \<or>
           (\<not> is_static \<and> 0 \<le> i \<and> i < int (length (entries (table enc))) \<and>
              nm = entry_name (entries (table enc) ! nat i))"
      using False by (auto simp: nm_def)
    from encoder_insert_name_ref_resolved [OF this, of v] f show ?thesis by auto
  qed
next
  assume "fst (encoder_insert_literal enc nm w) = Inl err3"
  then show "snd (encoder_insert_literal enc nm w) = enc"
    using encoder_insert_literal_cases [of enc nm w] by auto
next
  assume "fst (encoder_duplicate enc j) = Inl err4"
  then show "snd (encoder_duplicate enc j) = enc"
    using encoder_duplicate_cases [of enc j] by auto
qed

theorem encoder_failure_atomic_witness:
  "fst (encoder_set_capacity (new_encoder 0) 5) = Inl CapacityExceedsLimit \<and>
   fst (encoder_insert_name_ref (new_encoder 0) 5 [] False) = Inl IndexOutOfRange \<and>
   fst (encoder_insert_literal (new_encoder 0) [0x78] [0x79]) = Inl EntryTooLarge \<and>
   fst (encoder_duplicate (new_encoder 0) 0) = Inl IndexOutOfRange \<and>
   snd (encoder_set_capacity (new_encoder 0) 5) = new_encoder 0 \<and>
   snd (encoder_insert_name_ref (new_encoder 0) 5 [] False) = new_encoder 0 \<and>
   snd (encoder_insert_literal (new_encoder 0) [0x78] [0x79]) = new_encoder 0 \<and>
   snd (encoder_duplicate (new_encoder 0) 0) = new_encoder 0"
proof -
  have a: "fst (encoder_set_capacity (new_encoder 0) 5) = Inl CapacityExceedsLimit"
    by (simp add: encoder_set_capacity_def new_encoder_def)
  have b: "fst (encoder_insert_name_ref (new_encoder 0) 5 [] False) = Inl IndexOutOfRange"
    by (simp add: encoder_insert_name_ref_def new_encoder_def new_tracker_def)
  have c: "fst (encoder_insert_literal (new_encoder 0) [0x78] [0x79]) = Inl EntryTooLarge"
    by (simp add: encoder_insert_literal_def new_encoder_def new_tracker_def ENTRY_OVERHEAD_def)
  have d: "fst (encoder_duplicate (new_encoder 0) 0) = Inl IndexOutOfRange"
    by (simp add: encoder_duplicate_def new_encoder_def new_tracker_def)
  from a b c d
    encoder_failure_atomic [of "new_encoder 0" 5 CapacityExceedsLimit 5 "[]" False
      IndexOutOfRange "[0x78]" "[0x79]" EntryTooLarge 0 IndexOutOfRange]
  show ?thesis by simp
qed

section \<open>Encoder: \<open>set_capacity\<close>\<close>



section \<open>Encoder: \<open>insert_name_ref\<close>\<close>




section \<open>Reachable encoder states\<close>

lemma entry_size_nonneg: "0 \<le> entry_size e"
  by (simp add: entry_size_def ENTRY_OVERHEAD_def)

lemma entry_size_le_total:
  "e \<in> set es \<Longrightarrow> entry_size e \<le> sum_list (map entry_size es)"
proof (induction es)
  case Nil
  then show ?case by simp
next
  case (Cons x xs)
  have "0 \<le> sum_list (map entry_size xs)"
    by (rule sum_list_nonneg) (auto simp: entry_size_nonneg)
  with Cons entry_size_nonneg [of x] show ?case by auto
qed

lemma table_after_insert:
  assumes "tracker_insert t nm v = (Inr (), t')"
  shows "current_size t' \<le> capacity t'"
  using tracker_insert_size [of t nm v] assms by simp

lemma reachable_size_invariant:
  "reachable enc \<Longrightarrow> current_size (table enc) \<le> capacity (table enc)"
proof (induction rule: reachable.induct)
  case (fresh m)
  show ?case by (simp add: new_encoder_def new_tracker_def current_size_def)
next
  case (via_setter enc m)
  then show ?case by (simp add: set_max_table_capacity_def)
next
  case (via_set_capacity enc cap)
  from encoder_set_capacity_cases [of enc cap] via_set_capacity.IH show ?case
    by (auto simp: tracker_set_capacity_size)
next
  case (via_insert_name_ref enc index v is_static)
  show ?case
  proof (cases "(is_static \<and> (index < 0 \<or> STATIC_TABLE_SIZE \<le> index)) \<or>
           (\<not> is_static \<and> (index < 0 \<or> int (length (entries (table enc))) \<le> index))")
    case True
    then show ?thesis
      using via_insert_name_ref.IH by (simp add: encoder_insert_name_ref_index_error)
  next
    case False
    define nm where "nm = (if is_static then fst (STATIC_TABLE ! nat index)
                           else entry_name (entries (table enc) ! nat index))"
    have "(is_static \<and> 0 \<le> index \<and> index < STATIC_TABLE_SIZE \<and>
             nm = fst (STATIC_TABLE ! nat index)) \<or>
           (\<not> is_static \<and> 0 \<le> index \<and> index < int (length (entries (table enc))) \<and>
              nm = entry_name (entries (table enc) ! nat index))"
      using False by (auto simp: nm_def)
    from encoder_insert_name_ref_resolved [OF this, of v] via_insert_name_ref.IH
    show ?thesis by (auto dest: table_after_insert)
  qed
next
  case (via_insert_literal enc nm v)
  from encoder_insert_literal_cases [of enc nm v] via_insert_literal.IH show ?case
    by (auto dest: table_after_insert)
next
  case (via_duplicate enc relative_index)
  from encoder_duplicate_cases [of enc relative_index] via_duplicate.IH show ?case
    by (auto dest: table_after_insert)
qed

text \<open>
  Claim C10. In every encoder state reachable from a fresh encoder by calls that return
  or fail, each present entry has size at most the capacity of the tracker; so
  \<open>duplicate\<close> of the encoder never fails with EntryTooLarge, and with an index that
  addresses a present entry it returns the Duplicate instruction.
\<close>

theorem reachable_entries_fit_duplicate_ok:
  assumes "reachable enc"
  shows "(\<forall>e \<in> set (entries (table enc)). entry_size e \<le> capacity (table enc)) \<and>
         (\<forall>i. fst (encoder_duplicate enc i) \<noteq> Inl EntryTooLarge) \<and>
         (\<forall>i. 0 \<le> i \<and> i < int (length (entries (table enc))) \<longrightarrow>
              (\<exists>bs. duplicate i = Inr bs \<and> fst (encoder_duplicate enc i) = Inr bs))"
proof -
  have inv: "current_size (table enc) \<le> capacity (table enc)"
    using assms by (rule reachable_size_invariant)
  have fit: "entry_size e \<le> capacity (table enc)" if "e \<in> set (entries (table enc))" for e
    using entry_size_le_total [OF that] inv by (simp add: current_size_def)
  have src: "entry_size (entries (table enc) ! nat i) \<le> capacity (table enc)"
    if "0 \<le> i" "i < int (length (entries (table enc)))" for i
    using that by (intro fit) simp
  have "fst (encoder_duplicate enc i) \<noteq> Inl EntryTooLarge" for i
    using encoder_duplicate_cases [of enc i] src [of i] by auto
  moreover have "\<exists>bs. duplicate i = Inr bs \<and> fst (encoder_duplicate enc i) = Inr bs"
    if "0 \<le> i \<and> i < int (length (entries (table enc)))" for i
    using encoder_duplicate_cases [of enc i] src [of i] that by auto
  ultimately show ?thesis using fit by blast
qed

theorem reachable_entries_fit_duplicate_ok_witness:
  "reachable (snd (encoder_insert_literal (snd (encoder_set_capacity (new_encoder 100) 100))
                     [0x78] [0x79])) \<and>
   snd (encoder_insert_literal (snd (encoder_set_capacity (new_encoder 100) 100))
                     [0x78] [0x79]) =
     \<lparr>table = \<lparr>entries = [\<lparr>entry_name = [0x78], entry_value = [0x79]\<rparr>],
                capacity = 100, insert_count = 1\<rparr>,
      max_table_capacity = 100\<rparr> \<and>
   entry_size \<lparr>entry_name = [0x78], entry_value = [0x79]\<rparr> \<le> 100 \<and>
   fst (encoder_duplicate
          \<lparr>table = \<lparr>entries = [\<lparr>entry_name = [0x78], entry_value = [0x79]\<rparr>],
                     capacity = 100, insert_count = 1\<rparr>,
           max_table_capacity = 100\<rparr> 0) \<noteq> Inl EntryTooLarge \<and>
   fst (encoder_duplicate
          \<lparr>table = \<lparr>entries = [\<lparr>entry_name = [0x78], entry_value = [0x79]\<rparr>],
                     capacity = 100, insert_count = 1\<rparr>,
           max_table_capacity = 100\<rparr> 0) = Inr [0x00]"
proof -
  let ?E = "snd (encoder_insert_literal (snd (encoder_set_capacity (new_encoder 100) 100))
                     [0x78] [0x79])"
  have r: "reachable ?E"
    by (intro reachable.via_insert_literal reachable.via_set_capacity reachable.fresh)
  have ev: "?E = \<lparr>table = \<lparr>entries = [\<lparr>entry_name = [0x78], entry_value = [0x79]\<rparr>],
                capacity = 100, insert_count = 1\<rparr>,
      max_table_capacity = 100\<rparr>"
    by (simp add: encoder_insert_literal_def encoder_set_capacity_def new_encoder_def
          new_tracker_def set_dynamic_table_capacity_def encode_integer_def
          encode_integer_loop.simps or_first_byte_def
          tracker_set_capacity_def tracker_evict.simps current_size_def
          insert_with_literal_name_def encode_string_def ENTRY_OVERHEAD_def
          tracker_insert_def tracker_insert_loop.simps entry_size_def)
  have dup: "duplicate 0 = Inr [0x00]" by (simp add: duplicate_def encode_integer_def)
  from reachable_entries_fit_duplicate_ok [OF r] r dup show ?thesis
    unfolding ev by auto
qed

section \<open>Insert With Literal Name\<close>

text \<open>
  Claim C2 is not what the code does for a name of 31 bytes or more. The code calls
  \<open>encode_string\<close>, which writes the length with a 7-bit prefix, and then sets bit 6.
  For a name of 32 bytes and an empty value the first byte is \<open>0x60\<close>: the top two bits
  are \<open>01\<close>, but the Huffman flag (bit 5) is 1 and the low five bits say length 0,
  where the documented format is \<open>0x5F 0x01\<close> followed by the name.
\<close>

theorem insert_with_literal_name_long_name:
  "insert_with_literal_name (replicate 32 0x61) [] = Inr (0x60 # replicate 32 0x61 @ [0x00]) \<and>
   bit (0x60 :: byte) 5 \<and> (0x60 :: byte) AND 0x1F = 0 \<and>
   insert_with_literal_name_spec (replicate 32 0x61) [] =
     Inr (0x5F # 0x01 # replicate 32 0x61 @ [0x00])"
  by (simp add: insert_with_literal_name_def insert_with_literal_name_spec_def
        encode_string_def encode_integer_def encode_integer_loop.simps or_first_byte_def)

lemma encode_integer_small:
  "0 \<le> n \<Longrightarrow> 1 \<le> p \<Longrightarrow> p \<le> 8 \<Longrightarrow> n < 2 ^ nat p - 1 \<Longrightarrow>
   encode_integer n p = Inr [word_of_int n]"
  by (simp add: encode_integer_def push_bit_eq_mult)

text \<open>For a name shorter than 31 bytes the code and the documented format agree.\<close>

lemma insert_with_literal_name_short_name:
  assumes "length nm < 31"
  shows "insert_with_literal_name nm v = insert_with_literal_name_spec nm v"
proof -
  have "encode_integer (int (length nm)) 7 = Inr [word_of_int (int (length nm))]"
    using assms by (intro encode_integer_small) simp_all
  moreover have "encode_integer (int (length nm)) 5 = Inr [word_of_int (int (length nm))]"
    using assms by (intro encode_integer_small) simp_all
  ultimately show ?thesis
    by (simp add: insert_with_literal_name_def insert_with_literal_name_spec_def
          encode_string_def or_first_byte_def)
qed

section \<open>Integer codec: when decoding fails\<close>

text \<open>
  Claim C9 is not what the code does for a negative offset: \<open>decode_integer\<close> checks
  \<open>offset >= len(data)\<close> only. With offset \<open>-1\<close> it reads the last byte and then
  continues at index 0; with an offset below \<open>-len(data)\<close> the subscript raises
  \<open>IndexError\<close>, not the \<open>ValueError\<close> of a malformed integer.
\<close>

theorem decode_integer_negative_offset:
  "decode_integer [0x01, 0xFF] (- 1) 8 = Inr (256, 2) \<and>
   decode_integer [0x05] (- 1) 8 = Inr (5, 1) \<and>
   decode_integer [0x05] (- 2) 8 = Inl IndexError"
  by (simp add: decode_integer_def decode_integer_loop.simps py_getitem_def)

lemma uint_and_80: "uint (x::byte) AND 0x80 = 0 \<longleftrightarrow> \<not> bit x 7"
proof -
  have "uint x AND 2 ^ 7 = 0 \<longleftrightarrow> \<not> bit (uint x) 7"
    by (rule and_exp_eq_0_iff_not_bit)
  then show ?thesis by (simp add: bit_uint_iff)
qed

lemma py_getitem_in_range:
  "0 \<le> i \<Longrightarrow> i < int (length xs) \<Longrightarrow> py_getitem xs i = Inr (xs ! nat i)"
  by (simp add: py_getitem_def)

lemma decode_integer_loop_nonneg:
  assumes "0 \<le> off" and "0 \<le> consumed"
  shows "(decode_integer_loop data off consumed v s = Inl MalformedInteger \<longleftrightarrow>
            (\<forall>x \<in> set (drop (nat (off + consumed)) data). bit x 7)) \<and>
         (decode_integer_loop data off consumed v s = Inl MalformedInteger \<or>
            (\<exists>r n. decode_integer_loop data off consumed v s = Inr (r, n)))"
  using assms
proof (induction data off consumed v s rule: decode_integer_loop.induct)
  case (1 data off consumed v s)
  let ?n = "nat (off + consumed)"
  show ?case
  proof (cases "off + consumed \<ge> int (length data)")
    case True
    then have "decode_integer_loop data off consumed v s = Inl MalformedInteger"
      by (subst decode_integer_loop.simps) simp
    moreover have "drop ?n data = []" using True by simp
    ultimately show ?thesis by simp
  next
    case False
    then have n: "?n < length data" using "1.prems" by simp
    let ?x = "data ! ?n"
    have get: "py_getitem data (off + consumed) = Inr ?x"
      using False "1.prems" by (intro py_getitem_in_range) simp_all
    have dr: "drop ?n data = ?x # drop (Suc ?n) data"
      using n by (simp add: Cons_nth_drop_Suc)
    show ?thesis
    proof (cases "bit ?x 7")
      case False
      then have "decode_integer_loop data off consumed v s =
                 Inr (v + push_bit s (uint ?x AND 0x7F), consumed + 1)"
        using \<open>\<not> int (length data) \<le> off + consumed\<close> get
        by (subst decode_integer_loop.simps) (simp add: uint_and_80 Let_def)
      moreover have "\<not> (\<forall>x \<in> set (drop ?n data). bit x 7)"
        using False dr by simp
      ultimately show ?thesis by simp
    next
      case True
      then have nz: "uint ?x AND 0x80 \<noteq> 0" by (simp add: uint_and_80)
      have unf: "decode_integer_loop data off consumed v s =
                 decode_integer_loop data off (consumed + 1)
                   (v + push_bit s (uint ?x AND 0x7F)) (s + 7)"
        using \<open>\<not> int (length data) \<le> off + consumed\<close> get nz
        by (subst decode_integer_loop.simps) (simp add: Let_def)
      have suc: "nat (off + (consumed + 1)) = Suc ?n" using "1.prems" by simp
      have "0 \<le> consumed + 1" using "1.prems" by simp
      from "1.IH" [OF \<open>\<not> int (length data) \<le> off + consumed\<close> get refl refl refl nz
          "1.prems"(1) this]
      have IH: "(decode_integer_loop data off (consumed + 1)
                   (v + push_bit s (uint ?x AND 0x7F)) (s + 7) = Inl MalformedInteger \<longleftrightarrow>
            (\<forall>x \<in> set (drop (Suc ?n) data). bit x 7)) \<and>
         (decode_integer_loop data off (consumed + 1)
                   (v + push_bit s (uint ?x AND 0x7F)) (s + 7) = Inl MalformedInteger \<or>
            (\<exists>r n. decode_integer_loop data off (consumed + 1)
                   (v + push_bit s (uint ?x AND 0x7F)) (s + 7) = Inr (r, n)))"
        unfolding suc .
      have "(\<forall>x \<in> set (drop ?n data). bit x 7) \<longleftrightarrow>
            (\<forall>x \<in> set (drop (Suc ?n) data). bit x 7)"
        using True by (simp add: dr)
      with IH show ?thesis unfolding unf by blast
    qed
  qed
qed

text \<open>
  For an offset that is not negative the claim holds: decoding fails, with
  MalformedInteger, exactly when the offset is at or beyond the end of the data, or the
  prefix is saturated and every byte after it has its high bit set; otherwise it
  returns a value and a number of bytes.
\<close>

lemma decode_integer_nonneg_offset:
  assumes "1 \<le> p" and "p \<le> 8" and "0 \<le> off"
  shows "(decode_integer data off p = Inl MalformedInteger \<longleftrightarrow>
            off \<ge> int (length data) \<or>
            (uint (data ! nat off) AND (2 ^ nat p - 1) = 2 ^ nat p - 1 \<and>
             (\<forall>x \<in> set (drop (nat off + 1) data). bit x 7))) \<and>
         (decode_integer data off p = Inl MalformedInteger \<or>
            (\<exists>r n. decode_integer data off p = Inr (r, n)))"
proof (cases "off \<ge> int (length data)")
  case True
  then show ?thesis using assms by (simp add: decode_integer_def)
next
  case False
  define mp :: int where "mp = push_bit (nat p) 1 - 1"
  have mp: "mp = 2 ^ nat p - 1" "0 \<le> mp" by (simp_all add: mp_def push_bit_eq_mult)
  let ?v = "uint (data ! nat off) AND mp"
  have get: "py_getitem data off = Inr (data ! nat off)"
    using False assms by (intro py_getitem_in_range) simp_all
  have le: "?v \<le> mp" using mp(2) by (rule AND_upper2)
  have dec: "decode_integer data off p =
       (if ?v < mp then Inr (?v, 1) else decode_integer_loop data off 1 ?v 0)"
    unfolding decode_integer_def Let_def mp_def [symmetric]
    using False assms get by simp
  show ?thesis
  proof (cases "?v < mp")
    case True
    then show ?thesis using dec False mp(1) by auto
  next
    case sat: False
    with le have eq: "?v = mp" by simp
    have n: "nat (off + 1) = nat off + 1" using assms by simp
    have "(0::int) \<le> 1" by simp
    from decode_integer_loop_nonneg [OF assms(3) this, of data ?v 0]
    have L: "(decode_integer_loop data off 1 ?v 0 = Inl MalformedInteger \<longleftrightarrow>
            (\<forall>x \<in> set (drop (nat off + 1) data). bit x 7)) \<and>
         (decode_integer_loop data off 1 ?v 0 = Inl MalformedInteger \<or>
            (\<exists>r n. decode_integer_loop data off 1 ?v 0 = Inr (r, n)))"
      unfolding n .
    have a: "decode_integer data off p = decode_integer_loop data off 1 ?v 0"
      using dec sat by simp
    have sat': "uint (data ! nat off) AND (2 ^ nat p - 1) = 2 ^ nat p - 1"
      using eq unfolding mp(1) .
    show ?thesis unfolding a using L False sat' by blast
  qed
qed

end
